theory Spec2Isabelle
  imports Main "HOL-Library.Char_ord" "HOL-Library.List_Lexorder" "HOL-Library.Sublist"
begin

section \<open>Python strings\<close>

text \<open>
  A Python \<open>str\<close> is modelled as a \<open>string\<close>, a list of characters; a \<open>char\<close> stands
  for the code point of the same number, so the model covers the code points U+0000 to
  U+00FF. Strings are ordered as Python orders them: lexicographically by code point, a
  proper prefix before its extensions.
\<close>

definition code_point :: "char \<Rightarrow> nat" where
  "code_point c = of_char c"

text \<open>\<open>str.isspace\<close> below U+0100: the characters \<open>str.strip()\<close> and \<open>str.split()\<close> remove.\<close>

definition is_space :: "char \<Rightarrow> bool" where
  "is_space c =
     (let n = code_point c
      in (9 \<le> n \<and> n \<le> 13) \<or> (28 \<le> n \<and> n \<le> 32) \<or> n = 133 \<or> n = 160)"

text \<open>\<open>string.punctuation\<close>: the 32 ASCII characters
  \<^verbatim>\<open>!"#$%&'()*+,-./\<close> (33 to 47), \<^verbatim>\<open>:;<=>?@\<close> (58 to 64),
  \<^verbatim>\<open>[\]^_`\<close> (91 to 96) and \<^verbatim>\<open>{|}~\<close> (123 to 126).\<close>

definition is_punctuation :: "char \<Rightarrow> bool" where
  "is_punctuation c =
     (let n = code_point c
      in (33 \<le> n \<and> n \<le> 47) \<or> (58 \<le> n \<and> n \<le> 64) \<or> (91 \<le> n \<and> n \<le> 96)
         \<or> (123 \<le> n \<and> n \<le> 126))"

text \<open>\<open>str.lower()\<close> below U+0100: A to Z, and the Latin-1 capitals U+00C0 to U+00DE
  without the multiplication sign U+00D7, move up by 32.\<close>

definition lower_char :: "char \<Rightarrow> char" where
  "lower_char c =
     (let n = code_point c
      in if (65 \<le> n \<and> n \<le> 90) \<or> (192 \<le> n \<and> n \<le> 222 \<and> n \<noteq> 215)
         then char_of (n + 32) else c)"

definition lower :: "string \<Rightarrow> string" where
  "lower s = map lower_char s"

text \<open>\<open>s.strip()\<close>\<close>

definition strip :: "string \<Rightarrow> string" where
  "strip s = rev (dropWhile is_space (rev (dropWhile is_space s)))"

text \<open>\<open>s.split()\<close>: the maximal runs of characters that are not whitespace. The first
  argument of the loop is the run being read, reversed.\<close>

fun split_run :: "string \<Rightarrow> string \<Rightarrow> string list" where
  "split_run run [] = (if run = [] then [] else [rev run])"
| "split_run run (c # cs) =
     (if is_space c then (if run = [] then split_run [] cs else rev run # split_run [] cs)
      else split_run (c # run) cs)"

definition split_ws :: "string \<Rightarrow> string list" where
  "split_ws s = split_run [] s"

text \<open>\<open>' '.join(words)\<close>\<close>

fun join_space :: "string list \<Rightarrow> string" where
  "join_space [] = []"
| "join_space [w] = w"
| "join_space (w # v # ws) = w @ CHR '' '' # join_space (v # ws)"

text \<open>\<open>sub in s\<close> for strings: \<open>sub\<close> occurs in \<open>s\<close> as a contiguous run.\<close>

fun str_in :: "string \<Rightarrow> string \<Rightarrow> bool" where
  "str_in sub [] = (sub = [])"
| "str_in sub (c # cs) = (prefix sub (c # cs) \<or> str_in sub cs)"

text \<open>\<open>s.split(sep)\<close> for a separator \<open>sep\<close> that is not empty: the occurrences of \<open>sep\<close>
  are found from the left and do not overlap; the parts between them are returned, the
  empty ones too, so the result always has at least one part. The second argument of the
  loop is the part being read, reversed. (Python raises ValueError for an empty
  separator; the searcher only passes the literals \<open>'' and not ''\<close>, \<open>'' and ''\<close>, \<open>'' or ''\<close>
  and \<open>'' not ''\<close>. The model returns the whole string as one part there.)\<close>

fun split_part :: "string \<Rightarrow> string \<Rightarrow> string \<Rightarrow> string list" where
  "split_part sep part [] = [rev part]"
| "split_part [] part (c # cs) = split_part [] (c # part) cs"
| "split_part (s # sep) part (c # cs) =
     (if prefix (s # sep) (c # cs) then rev part # split_part (s # sep) [] (drop (length sep) cs)
      else split_part (s # sep) (c # part) cs)"

definition split_sep :: "string \<Rightarrow> string \<Rightarrow> string list" where
  "split_sep s sep = split_part sep [] s"

text \<open>\<open>xs[:n]\<close> for a Python integer \<open>n\<close>: a negative \<open>n\<close> counts from the end.\<close>

definition slice_to :: "'a list \<Rightarrow> int \<Rightarrow> 'a list" where
  "slice_to xs n = (if n < 0 then take (nat (int (length xs) + n)) xs else take (nat n) xs)"

section \<open>Exceptions\<close>

text \<open>The exceptions derived from \<open>Exception\<close>, each with its message.\<close>

datatype exn = AttributeError string | OtherException string

fun exn_message :: "exn \<Rightarrow> string" where
  "exn_message (AttributeError m) = m"
| "exn_message (OtherException m) = m"

section \<open>The preprocessor (preprocessing/preprocessor.py)\<close>

text \<open>
  The stopword set (NLTK's English list) and the stemmer (NLTK's \<open>PorterStemmer.stem\<close>) come
  from a library outside the repository: they are the parameters \<open>stop_words\<close> and \<open>stem\<close>.
  The progress lines \<open>preprocess_manual\<close> prints are left out.
\<close>

definition remove_punctuation :: "string \<Rightarrow> string" where
  "remove_punctuation text = filter (\<lambda>c. \<not> is_punctuation c) text"

definition to_lowercase :: "string \<Rightarrow> string" where
  "to_lowercase text = lower text"

definition remove_stopwords :: "string set \<Rightarrow> string list \<Rightarrow> string list" where
  "remove_stopwords stop_words words = filter (\<lambda>word. lower word \<notin> stop_words) words"

definition stem_words :: "(string \<Rightarrow> string) \<Rightarrow> string list \<Rightarrow> string list" where
  "stem_words stem words = map stem words"

definition clean_whitespace :: "string \<Rightarrow> string" where
  "clean_whitespace text = join_space (split_ws text)"

definition preprocess_manual :: "string set \<Rightarrow> (string \<Rightarrow> string) \<Rightarrow> string \<Rightarrow> string" where
  "preprocess_manual stop_words stem text =
     (let text1 = to_lowercase text;
          text2 = remove_punctuation text1;
          text3 = clean_whitespace text2;
          words = split_ws text3;
          words1 = remove_stopwords stop_words words;
          words2 = stem_words stem words1
      in join_space words2)"

text \<open>
  The searcher calls \<open>self.preprocessor.preprocess_text(term)\<close> on a \<open>DocumentPreprocessor\<close>.
  The class defines the methods \<open>__init__\<close>, \<open>remove_punctuation\<close>, \<open>to_lowercase\<close>,
  \<open>remove_stopwords\<close>, \<open>stem_words\<close>, \<open>clean_whitespace\<close>, \<open>preprocess_manual\<close>,
  \<open>preprocess_with_analyzer\<close>, \<open>preprocess_documents\<close>, \<open>save_to_jsonl\<close> and
  \<open>display_preprocessing_summary\<close>, its instances carry \<open>stemmer\<close>, \<open>analyzer\<close> and
  \<open>stop_words\<close>, and it has no base class: the name \<open>preprocess_text\<close> is not among them, so
  the attribute lookup raises AttributeError before anything is called, whatever the
  argument. (The message is Python's, without its quotation marks.)
\<close>

definition DocumentPreprocessor_preprocess_text :: "string \<Rightarrow> exn + string list" where
  "DocumentPreprocessor_preprocess_text t =
     Inl (AttributeError ''DocumentPreprocessor object has no attribute preprocess_text'')"

text \<open>
  For comparison, a preprocessor whose \<open>preprocess_text\<close> returns the tokens of the text
  that \<open>preprocess_manual\<close> writes for the index.
\<close>

definition manual_tokens :: "string set \<Rightarrow> (string \<Rightarrow> string) \<Rightarrow> string \<Rightarrow> exn + string list" where
  "manual_tokens stop_words stem t = Inr (split_ws (preprocess_manual stop_words stem t))"

section \<open>The searcher (retrieval/searcher.py)\<close>

text \<open>
  \<open>self.inverted_index\<close> is a dictionary from terms to sets of document ids. Every function
  of the searcher takes it as \<open>idx\<close>, and takes as \<open>pp\<close> what evaluating
  \<open>self.preprocessor.preprocess_text(term)\<close> does: raise, or return a list of tokens.
\<close>

type_synonym inverted_index = "string \<rightharpoonup> string set"

type_synonym preprocess = "string \<Rightarrow> exn + string list"

definition get_documents_for_term :: "preprocess \<Rightarrow> inverted_index \<Rightarrow> string \<Rightarrow> exn + string set" where
  "get_documents_for_term pp idx t =
     (case pp (lower (strip t)) of
        Inl e \<Rightarrow> Inl e
      | Inr processed_term \<Rightarrow>
          Inr (fold (\<lambda>token result_docs.
                       case idx token of Some docs \<Rightarrow> result_docs \<union> docs | None \<Rightarrow> result_docs)
                    processed_term {}))"

fun and_loop :: "preprocess \<Rightarrow> inverted_index \<Rightarrow> string set \<Rightarrow> string list \<Rightarrow> exn + string set" where
  "and_loop pp idx result_set [] = Inr result_set"
| "and_loop pp idx result_set (t # ts) =
     (case get_documents_for_term pp idx t of
        Inl e \<Rightarrow> Inl e
      | Inr term_docs \<Rightarrow> and_loop pp idx (result_set \<inter> term_docs) ts)"

definition handle_and :: "preprocess \<Rightarrow> inverted_index \<Rightarrow> string \<Rightarrow> exn + string set" where
  "handle_and pp idx q =
     (case map strip (split_sep q '' and '') of
        [] \<Rightarrow> Inr {}
      | t # ts \<Rightarrow>
          (case get_documents_for_term pp idx t of
             Inl e \<Rightarrow> Inl e
           | Inr result_set \<Rightarrow> and_loop pp idx result_set ts))"

fun or_loop :: "preprocess \<Rightarrow> inverted_index \<Rightarrow> string set \<Rightarrow> string list \<Rightarrow> exn + string set" where
  "or_loop pp idx result_set [] = Inr result_set"
| "or_loop pp idx result_set (t # ts) =
     (case get_documents_for_term pp idx t of
        Inl e \<Rightarrow> Inl e
      | Inr term_docs \<Rightarrow> or_loop pp idx (result_set \<union> term_docs) ts)"

definition handle_or :: "preprocess \<Rightarrow> inverted_index \<Rightarrow> string \<Rightarrow> exn + string set" where
  "handle_or pp idx q = or_loop pp idx {} (map strip (split_sep q '' or ''))"

definition handle_not :: "preprocess \<Rightarrow> inverted_index \<Rightarrow> string \<Rightarrow> exn + string set" where
  "handle_not pp idx q =
     (case split_sep q '' not '' of
        [p0, p1] \<Rightarrow>
          (case get_documents_for_term pp idx (strip p0) of
             Inl e \<Rightarrow> Inl e
           | Inr positive_docs \<Rightarrow>
               (case get_documents_for_term pp idx (strip p1) of
                  Inl e \<Rightarrow> Inl e
                | Inr negative_docs \<Rightarrow> Inr (positive_docs - negative_docs)))
      | _ \<Rightarrow> Inr {})"

definition handle_and_not :: "preprocess \<Rightarrow> inverted_index \<Rightarrow> string \<Rightarrow> exn + string set" where
  "handle_and_not pp idx q =
     (case split_sep q '' and not '' of
        [p0, p1] \<Rightarrow>
          (let left_part = strip p0; negative_term = strip p1
           in case (if str_in '' and '' left_part then handle_and pp idx left_part
                    else get_documents_for_term pp idx left_part) of
                Inl e \<Rightarrow> Inl e
              | Inr positive_docs \<Rightarrow>
                  (case get_documents_for_term pp idx negative_term of
                     Inl e \<Rightarrow> Inl e
                   | Inr negative_docs \<Rightarrow> Inr (positive_docs - negative_docs)))
      | _ \<Rightarrow> Inr {})"

definition parse_boolean_query :: "preprocess \<Rightarrow> inverted_index \<Rightarrow> string \<Rightarrow> exn + string set" where
  "parse_boolean_query pp idx q =
     (let ql = strip (lower q)
      in if str_in '' and not '' ql then handle_and_not pp idx ql
         else if str_in '' and '' ql then handle_and pp idx ql
         else if str_in '' or '' ql then handle_or pp idx ql
         else if str_in '' not '' ql then handle_not pp idx ql
         else get_documents_for_term pp idx ql)"

text \<open>The body of the \<open>try\<close> block of \<open>search_boolean\<close>.\<close>

definition search_boolean_try ::
  "preprocess \<Rightarrow> inverted_index \<Rightarrow> string \<Rightarrow> int \<Rightarrow> exn + string list" where
  "search_boolean_try pp idx q max_results =
     (let qs = strip q
      in if qs = [] then Inr []
         else case parse_boolean_query pp idx qs of
                Inl e \<Rightarrow> Inl e
              | Inr result_set \<Rightarrow> Inr (slice_to (sorted_list_of_set result_set) max_results))"

text \<open>\<open>search_boolean\<close> returns the result list; the second component is what it prints.\<close>

definition search_boolean ::
  "preprocess \<Rightarrow> inverted_index \<Rightarrow> string \<Rightarrow> int \<Rightarrow> string list \<times> string list" where
  "search_boolean pp idx q max_results =
     (case search_boolean_try pp idx q max_results of
        Inr results \<Rightarrow> (results, [])
      | Inl e \<Rightarrow> ([], [''Error in Boolean search: '' @ exn_message e]))"

subsection \<open>The verifier\<close>

text \<open>
  The report \<open>verify_boolean_logic\<close> fills in. An issue is kept as its kind, the document
  id and the term or terms its message names, instead of the formatted message; an entry
  of \<open>document_analysis\<close> is the one \<open>_verify_and_logic\<close> appends (document id, required,
  found and missing terms) or the one \<open>_verify_or_logic\<close> appends (document id, the terms,
  the found terms). The verifier also reads the stored content of each document and
  never uses it; that read is left out.
\<close>

datatype issue =
    Missing_required_term string string
  | Missing_required_terms string "string list"
  | No_required_terms string "string list"
  | Contains_excluded_term string string

datatype analysis =
    And_analysis string "string list" "string list" "string list"
  | Or_analysis string "string list" "string list"

record verification =
  query :: string
  total_results :: nat
  logic_correct :: bool
  issues :: "issue list"
  document_analysis :: "analysis list"

text \<open>The loop of \<open>_verify_and_logic\<close> over the terms; its state is \<open>found_terms\<close>,
  \<open>missing_terms\<close> and the report.\<close>

fun verify_and_terms ::
  "preprocess \<Rightarrow> inverted_index \<Rightarrow> string \<Rightarrow> string list \<Rightarrow>
   string list \<times> string list \<times> verification \<Rightarrow> exn + string list \<times> string list \<times> verification" where
  "verify_and_terms pp idx doc_id [] st = Inr st"
| "verify_and_terms pp idx doc_id (t # ts) (found, missing, v) =
     (case get_documents_for_term pp idx t of
        Inl e \<Rightarrow> Inl e
      | Inr docs \<Rightarrow>
          if doc_id \<in> docs then verify_and_terms pp idx doc_id ts (found @ [t], missing, v)
          else verify_and_terms pp idx doc_id ts
                 (found, missing @ [t],
                  v\<lparr>logic_correct := False,
                    issues := issues v @ [Missing_required_term doc_id t]\<rparr>))"

definition verify_and_logic ::
  "preprocess \<Rightarrow> inverted_index \<Rightarrow> string \<Rightarrow> string \<Rightarrow> verification \<Rightarrow> exn + verification" where
  "verify_and_logic pp idx q doc_id v =
     (let terms = map strip (split_sep q '' and '')
      in case verify_and_terms pp idx doc_id terms ([], [], v) of
           Inl e \<Rightarrow> Inl e
         | Inr (found, missing, v1) \<Rightarrow>
             Inr (v1\<lparr>document_analysis :=
                       document_analysis v1 @ [And_analysis doc_id terms found missing]\<rparr>))"

text \<open>The loop of \<open>_verify_or_logic\<close>; its state is \<open>found_any\<close> and \<open>found_terms\<close>.\<close>

fun verify_or_terms ::
  "preprocess \<Rightarrow> inverted_index \<Rightarrow> string \<Rightarrow> string list \<Rightarrow>
   bool \<times> string list \<Rightarrow> exn + bool \<times> string list" where
  "verify_or_terms pp idx doc_id [] st = Inr st"
| "verify_or_terms pp idx doc_id (t # ts) (found_any, found) =
     (case get_documents_for_term pp idx t of
        Inl e \<Rightarrow> Inl e
      | Inr docs \<Rightarrow>
          if doc_id \<in> docs then verify_or_terms pp idx doc_id ts (True, found @ [t])
          else verify_or_terms pp idx doc_id ts (found_any, found))"

definition verify_or_logic ::
  "preprocess \<Rightarrow> inverted_index \<Rightarrow> string \<Rightarrow> string \<Rightarrow> verification \<Rightarrow> exn + verification" where
  "verify_or_logic pp idx q doc_id v =
     (let terms = map strip (split_sep q '' or '')
      in case verify_or_terms pp idx doc_id terms (False, []) of
           Inl e \<Rightarrow> Inl e
         | Inr (found_any, found) \<Rightarrow>
             (let v1 = (if \<not> found_any
                        then v\<lparr>logic_correct := False,
                               issues := issues v @ [No_required_terms doc_id terms]\<rparr>
                        else v)
              in Inr (v1\<lparr>document_analysis :=
                           document_analysis v1 @ [Or_analysis doc_id terms found]\<rparr>)))"

text \<open>The loop of \<open>_verify_and_not_logic\<close> that collects \<open>missing_positive\<close>.\<close>

fun missing_positive_terms ::
  "preprocess \<Rightarrow> inverted_index \<Rightarrow> string \<Rightarrow> string list \<Rightarrow> string list \<Rightarrow> exn + string list" where
  "missing_positive_terms pp idx doc_id [] missing = Inr missing"
| "missing_positive_terms pp idx doc_id (t # ts) missing =
     (case get_documents_for_term pp idx t of
        Inl e \<Rightarrow> Inl e
      | Inr docs \<Rightarrow>
          missing_positive_terms pp idx doc_id ts (if doc_id \<notin> docs then missing @ [t] else missing))"

text \<open>The last check of \<open>_verify_and_not_logic\<close> and of \<open>_verify_not_logic\<close>: the document
  is not to have the negative term.\<close>

definition check_excluded ::
  "preprocess \<Rightarrow> inverted_index \<Rightarrow> string \<Rightarrow> string \<Rightarrow> verification \<Rightarrow> exn + verification" where
  "check_excluded pp idx negative_term doc_id v =
     (case get_documents_for_term pp idx negative_term of
        Inl e \<Rightarrow> Inl e
      | Inr docs \<Rightarrow>
          Inr (if doc_id \<in> docs
               then v\<lparr>logic_correct := False,
                      issues := issues v @ [Contains_excluded_term doc_id negative_term]\<rparr>
               else v))"

definition verify_and_not_logic ::
  "preprocess \<Rightarrow> inverted_index \<Rightarrow> string \<Rightarrow> string \<Rightarrow> verification \<Rightarrow> exn + verification" where
  "verify_and_not_logic pp idx q doc_id v =
     (case split_sep q '' and not '' of
        [p0, p1] \<Rightarrow>
          (let positive_part = strip p0; negative_term = strip p1
           in if str_in '' and '' positive_part
              then (case missing_positive_terms pp idx doc_id
                           (map strip (split_sep positive_part '' and '')) [] of
                      Inl e \<Rightarrow> Inl e
                    | Inr missing \<Rightarrow>
                        check_excluded pp idx negative_term doc_id
                          (if missing \<noteq> []
                           then v\<lparr>logic_correct := False,
                                  issues := issues v @ [Missing_required_terms doc_id missing]\<rparr>
                           else v))
              else (case get_documents_for_term pp idx positive_part of
                      Inl e \<Rightarrow> Inl e
                    | Inr docs \<Rightarrow>
                        check_excluded pp idx negative_term doc_id
                          (if doc_id \<notin> docs
                           then v\<lparr>logic_correct := False,
                                  issues := issues v @ [Missing_required_term doc_id positive_part]\<rparr>
                           else v)))
      | _ \<Rightarrow> Inr v)"

definition verify_not_logic ::
  "preprocess \<Rightarrow> inverted_index \<Rightarrow> string \<Rightarrow> string \<Rightarrow> verification \<Rightarrow> exn + verification" where
  "verify_not_logic pp idx q doc_id v =
     (case split_sep q '' not '' of
        [p0, p1] \<Rightarrow>
          (let positive_term = strip p0; negative_term = strip p1
           in case get_documents_for_term pp idx positive_term of
                Inl e \<Rightarrow> Inl e
              | Inr docs \<Rightarrow>
                  check_excluded pp idx negative_term doc_id
                    (if doc_id \<notin> docs
                     then v\<lparr>logic_correct := False,
                            issues := issues v @ [Missing_required_term doc_id positive_term]\<rparr>
                     else v))
      | _ \<Rightarrow> Inr v)"

text \<open>The body of the loop of \<open>verify_boolean_logic\<close> over the results, and the loop.\<close>

definition verify_document ::
  "preprocess \<Rightarrow> inverted_index \<Rightarrow> string \<Rightarrow> string \<Rightarrow> verification \<Rightarrow> exn + verification" where
  "verify_document pp idx query_lower doc_id v =
     (if str_in '' and not '' query_lower then verify_and_not_logic pp idx query_lower doc_id v
      else if str_in '' and '' query_lower then verify_and_logic pp idx query_lower doc_id v
      else if str_in '' or '' query_lower then verify_or_logic pp idx query_lower doc_id v
      else if str_in '' not '' query_lower then verify_not_logic pp idx query_lower doc_id v
      else Inr v)"

fun verify_results ::
  "preprocess \<Rightarrow> inverted_index \<Rightarrow> string \<Rightarrow> string list \<Rightarrow> verification \<Rightarrow> exn + verification" where
  "verify_results pp idx query_lower [] v = Inr v"
| "verify_results pp idx query_lower (doc_id # rest) v =
     (case verify_document pp idx query_lower doc_id v of
        Inl e \<Rightarrow> Inl e
      | Inr v1 \<Rightarrow> verify_results pp idx query_lower rest v1)"

definition verify_boolean_logic ::
  "preprocess \<Rightarrow> inverted_index \<Rightarrow> string \<Rightarrow> string list \<Rightarrow> exn + verification" where
  "verify_boolean_logic pp idx q results =
     verify_results pp idx (lower q) results
       \<lparr>query = q, total_results = length results, logic_correct = True, issues = [],
        document_analysis = []\<rparr>"

subsection \<open>Building the inverted index\<close>

text \<open>
  The Lucene index reader is outside the repository; the searcher uses its document
  count and three of its operations, each of which may raise, and reads the contents of
  a document, which may raise or be \<open>None\<close>. A document vector is the list of its terms
  with their frequencies, in the order the dictionary yields its keys.
\<close>

record lucene_document =
  contents :: "exn + string option"

record index_reader =
  stats_documents :: nat
  convert_internal_docid_to_collection_docid :: "nat \<Rightarrow> exn + string"
  doc :: "string \<Rightarrow> exn + lucene_document option"
  get_document_vector :: "string \<Rightarrow> exn + (string \<times> nat) list option"

record retrieval =
  inverted_index :: inverted_index
  documents :: "string \<rightharpoonup> string"

definition add_posting :: "string \<Rightarrow> string \<Rightarrow> retrieval \<Rightarrow> retrieval" where
  "add_posting collection_docid t s =
     s\<lparr>inverted_index :=
         (inverted_index s)
           (t \<mapsto> insert collection_docid
                   (case inverted_index s t of None \<Rightarrow> {} | Some docs \<Rightarrow> docs))\<rparr>"

text \<open>One round of the loop of \<open>build_inverted_index\<close>: the body of its \<open>try\<close>, where an
  exception ends the round and keeps what the round has stored so far.\<close>

definition index_document :: "index_reader \<Rightarrow> nat \<Rightarrow> retrieval \<Rightarrow> retrieval" where
  "index_document reader internal_docid s =
     (case convert_internal_docid_to_collection_docid reader internal_docid of
        Inl e \<Rightarrow> s
      | Inr collection_docid \<Rightarrow>
          (case doc reader collection_docid of
             Inl e \<Rightarrow> s
           | Inr None \<Rightarrow> s\<lparr>documents := (documents s)(collection_docid \<mapsto> [])\<rparr>
           | Inr (Some d) \<Rightarrow>
               (case contents d of
                  Inl e \<Rightarrow> s
                | Inr doc_content \<Rightarrow>
                    (let s1 = s\<lparr>documents := (documents s)
                                 (collection_docid \<mapsto>
                                    (case doc_content of None \<Rightarrow> [] | Some c \<Rightarrow> c))\<rparr>
                     in case get_document_vector reader collection_docid of
                          Inl e \<Rightarrow> s1
                        | Inr None \<Rightarrow> s1
                        | Inr (Some doc_vector) \<Rightarrow>
                            fold (add_posting collection_docid) (map fst doc_vector) s1))))"

text \<open>\<open>build_inverted_index\<close>, run by \<open>__init__\<close> on the empty dictionaries.\<close>

definition build_inverted_index :: "index_reader \<Rightarrow> retrieval" where
  "build_inverted_index reader =
     fold (index_document reader) [0 ..< stats_documents reader]
       \<lparr>inverted_index = Map.empty, documents = Map.empty\<rparr>"

section \<open>The normalizer of the specification\<close>

text \<open>
  The normalizer as the specification words it, step by step: lowercase the whole string;
  remove every punctuation character; collapse the whitespace runs and trim; split on
  whitespace; drop the tokens of the stopword set; stem each remaining token. The result
  is the sequence of tokens.
\<close>

definition normalize :: "string set \<Rightarrow> (string \<Rightarrow> string) \<Rightarrow> string \<Rightarrow> string list" where
  "normalize stop_words stem text =
     (let lowered = lower text;
          unpunctuated = filter (\<lambda>c. \<not> is_punctuation c) lowered;
          collapsed = join_space (split_ws unpunctuated);
          tokens = split_ws collapsed;
          kept = filter (\<lambda>w. w \<notin> stop_words) tokens
      in map stem kept)"

section \<open>The query grammar of the specification\<close>

text \<open>
  The operator family of a query as the specification chooses it: by substring search
  (\<open>sublist\<close>, the library's notion of a contiguous run) on the lowercased, trimmed query,
  in the priority order \<open>'' and not ''\<close>, \<open>'' and ''\<close>, \<open>'' or ''\<close>, \<open>'' not ''\<close>, and a single
  term group when none occurs.
\<close>

datatype operator_family = AndNotQuery | AndQuery | OrQuery | NotQuery | SingleTermQuery

definition operator_family_of :: "string \<Rightarrow> operator_family" where
  "operator_family_of q =
     (let ql = strip (lower q)
      in if sublist '' and not '' ql then AndNotQuery
         else if sublist '' and '' ql then AndQuery
         else if sublist '' or '' ql then OrQuery
         else if sublist '' not '' ql then NotQuery
         else SingleTermQuery)"

text \<open>
  The AND NOT form as the specification words it: the query is split once, at the first
  occurrence of \<open>'' and not ''\<close>, into everything before and everything after
  (\<open>split_first\<close>; its second argument is the text read so far, reversed); the left part is
  resolved as an AND group when it contains \<open>'' and ''\<close> and as a term group otherwise,
  and the result is the left resolution minus the term-group resolution of the right
  part. There is no result (\<open>None\<close>) for a query without the separator.
\<close>

fun split_first :: "string \<Rightarrow> string \<Rightarrow> string \<Rightarrow> (string \<times> string) option" where
  "split_first sep before [] = None"
| "split_first sep before (c # cs) =
     (if prefix sep (c # cs) then Some (rev before, drop (length sep) (c # cs))
      else split_first sep (c # before) cs)"

definition and_not_at_first_occurrence ::
  "preprocess \<Rightarrow> inverted_index \<Rightarrow> string \<Rightarrow> (exn + string set) option" where
  "and_not_at_first_occurrence pp idx q =
     (case split_first '' and not '' [] (strip (lower q)) of
        None \<Rightarrow> None
      | Some (l, r) \<Rightarrow>
          Some (case (if str_in '' and '' (strip l) then handle_and pp idx (strip l)
                      else get_documents_for_term pp idx (strip l)) of
                  Inl e \<Rightarrow> Inl e
                | Inr left_docs \<Rightarrow>
                    (case get_documents_for_term pp idx (strip r) of
                       Inl e \<Rightarrow> Inl e
                     | Inr right_docs \<Rightarrow> Inr (left_docs - right_docs))))"

section \<open>Properties of the string operations\<close>

lemma lower_char_idem: "lower_char (lower_char c) = lower_char c"
  by (auto simp: lower_char_def code_point_def Let_def)

lemma is_space_lower_char: "is_space (lower_char c) = is_space c"
  by (auto simp: lower_char_def is_space_def code_point_def Let_def)

lemma lower_idem: "lower (lower s) = lower s"
  by (simp add: lower_def lower_char_idem)

lemma strip_lower: "strip (lower s) = lower (strip s)"
  by (simp add: strip_def lower_def dropWhile_map rev_map comp_def is_space_lower_char)

lemma dropWhile_rev_dropWhile:
  "dropWhile P (rev (dropWhile P (rev (dropWhile P s)))) = rev (dropWhile P (rev (dropWhile P s)))"
proof (cases "dropWhile P (rev (dropWhile P s)) = []")
  case True
  show ?thesis unfolding True by simp
next
  case False
  let ?t = "dropWhile P s"
  let ?u = "dropWhile P (rev ?t)"
  have t: "?t \<noteq> []"
  proof
    assume e: "?t = []"
    from False show False unfolding e by simp
  qed
  then have "\<not> P (hd ?t)" by (rule hd_dropWhile)
  obtain ys where ys: "rev ?t = ys @ ?u"
    by (metis takeWhile_dropWhile_id)
  have "last ?u = last (rev ?t)" using False ys by (metis last_appendR)
  also have "\<dots> = hd ?t" using t by (simp add: last_rev)
  finally have "\<not> P (last ?u)" using \<open>\<not> P (hd ?t)\<close> by simp
  then have "\<not> P (hd (rev ?u))" using False by (simp add: hd_rev)
  then show ?thesis by (simp add: dropWhile_eq_self_iff)
qed

lemma strip_idem: "strip (strip s) = strip s"
  by (simp add: strip_def dropWhile_rev_dropWhile)

lemma strip_lower_strip: "strip (lower (strip s)) = strip (lower s)"
  by (simp add: strip_lower strip_idem)

lemma str_in_sublist: "str_in sub s \<longleftrightarrow> sublist sub s"
  by (induction s) (auto simp: sublist_Cons_right)

lemma split_run_append:
  "\<forall>c\<in>set w. \<not> is_space c \<Longrightarrow> split_run run (w @ s) = split_run (rev w @ run) s"
  by (induction w arbitrary: run) auto

lemma is_space_blank: "is_space CHR '' ''"
  by (simp add: is_space_def code_point_def)

lemma split_run_join_space:
  "\<forall>w\<in>set ws. w \<noteq> [] \<and> (\<forall>c\<in>set w. \<not> is_space c) \<Longrightarrow> split_run [] (join_space ws) = ws"
proof (induction ws rule: join_space.induct)
  case 1
  then show ?case by simp
next
  case (2 w)
  then have "split_run [] (w @ []) = split_run (rev w @ []) []"
    by (intro split_run_append) simp
  with 2 show ?case by simp
next
  case (3 w v ws)
  then have "split_run [] (w @ CHR '' '' # join_space (v # ws))
      = split_run (rev w @ []) (CHR '' '' # join_space (v # ws))"
    by (intro split_run_append) simp
  with 3 show ?case by (simp add: is_space_blank)
qed

lemma split_run_subset:
  "w \<in> set (split_run run s) \<Longrightarrow> set w \<subseteq> set run \<union> set s"
proof (induction s arbitrary: run)
  case Nil
  then show ?case by (simp split: if_splits)
next
  case (Cons c cs)
  show ?case
  proof (cases "is_space c")
    case True
    then have "w = rev run \<or> w \<in> set (split_run [] cs)"
      using Cons.prems by (simp split: if_splits)
    then show ?thesis using Cons.IH [of "[]"] by auto
  next
    case False
    then have "w \<in> set (split_run (c # run) cs)" using Cons.prems by simp
    then show ?thesis using Cons.IH [of "c # run"] by auto
  qed
qed

lemma split_run_word_nonempty:
  "w \<in> set (split_run run s) \<Longrightarrow> w \<noteq> []"
proof (induction s arbitrary: run)
  case Nil
  then show ?case by (auto split: if_splits)
next
  case (Cons c cs)
  show ?case
  proof (cases "is_space c")
    case True
    then have "(run \<noteq> [] \<and> w = rev run) \<or> w \<in> set (split_run [] cs)"
      using Cons.prems by (simp split: if_splits)
    then show ?thesis using Cons.IH [of "[]"] by auto
  next
    case False
    then have "w \<in> set (split_run (c # run) cs)" using Cons.prems by simp
    then show ?thesis using Cons.IH [of "c # run"] by auto
  qed
qed

lemma split_ws_words:
  "w \<in> set (split_ws s) \<Longrightarrow> w \<noteq> [] \<and> set w \<subseteq> set s"
  using split_run_subset [of w "[]" s] split_run_word_nonempty [of w "[]" s]
  by (simp add: split_ws_def)

lemma split_run_no_space:
  "w \<in> set (split_run run s) \<Longrightarrow> c \<in> set w \<Longrightarrow> \<forall>d\<in>set run. \<not> is_space d \<Longrightarrow> \<not> is_space c"
proof (induction s arbitrary: run)
  case Nil
  then show ?case by (auto split: if_splits)
next
  case (Cons a cs)
  show ?case
  proof (cases "is_space a")
    case True
    then have "w = rev run \<or> w \<in> set (split_run [] cs)"
      using Cons.prems(1) by (simp split: if_splits)
    then show ?thesis
    proof
      assume "w = rev run"
      with Cons.prems show ?thesis by simp
    next
      assume "w \<in> set (split_run [] cs)"
      then show ?thesis using Cons.IH [of "[]"] Cons.prems(2) by simp
    qed
  next
    case False
    then have "w \<in> set (split_run (a # run) cs)" using Cons.prems(1) by simp
    then show ?thesis using Cons.IH [of "a # run"] Cons.prems(2,3) False by simp
  qed
qed

lemma split_ws_no_space: "w \<in> set (split_ws s) \<Longrightarrow> c \<in> set w \<Longrightarrow> \<not> is_space c"
  using split_run_no_space [of w "[]" s c] by (simp add: split_ws_def)

lemma split_ws_join_space: "split_ws (join_space (split_ws s)) = split_ws s"
proof -
  have "\<forall>w\<in>set (split_ws s). w \<noteq> [] \<and> (\<forall>c\<in>set w. \<not> is_space c)"
    using split_ws_words split_ws_no_space by blast
  then have "split_run [] (join_space (split_ws s)) = split_ws s"
    by (rule split_run_join_space)
  then show ?thesis by (simp add: split_ws_def)
qed

lemma split_part_nonempty: "split_part sep part s \<noteq> []"
  by (induction sep part s rule: split_part.induct) simp_all

lemma split_part_no_sep:
  "\<not> str_in sep s \<Longrightarrow> split_part sep part s = [rev part @ s]"
  by (induction sep part s rule: split_part.induct) simp_all

lemma split_part_step:
  "\<not> prefix (s # sep) (c # cs)
   \<Longrightarrow> split_part (s # sep) part (c # cs) = split_part (s # sep) (c # part) cs"
  by auto

lemma split_part_match:
  "prefix (s # sep) (c # cs)
   \<Longrightarrow> split_part (s # sep) part (c # cs)
       = rev part # split_part (s # sep) [] (drop (length sep) cs)"
  by auto

lemma split_part_single:
  "split_part sep part s = [x] \<Longrightarrow> x = rev part @ s"
proof (induction sep part s rule: split_part.induct)
  case (1 sep part)
  then show ?case by simp
next
  case (2 part c cs)
  then show ?case by simp
next
  case (3 s sep part c cs)
  show ?case
  proof (cases "prefix (s # sep) (c # cs)")
    case True
    from 3(3) show ?thesis
      unfolding split_part_match [OF True] by (simp add: split_part_nonempty)
  next
    case False
    from 3(3) have "split_part (s # sep) (c # part) cs = [x]"
      unfolding split_part_step [OF False] .
    from 3(2) [OF False this] show ?thesis by simp
  qed
qed

lemma split_part_two:
  "split_part sep part s = [l, r] \<Longrightarrow> rev part @ s = l @ sep @ r"
proof (induction sep part s rule: split_part.induct)
  case (1 sep part)
  then show ?case by simp
next
  case (2 part c cs)
  then show ?case by simp
next
  case (3 s sep part c cs)
  show ?case
  proof (cases "prefix (s # sep) (c # cs)")
    case True
    then obtain rest where rest: "c # cs = (s # sep) @ rest"
      by (auto simp: prefix_def)
    then have d: "drop (length sep) cs = rest" by simp
    from 3(3) have l: "l = rev part"
      and "split_part (s # sep) [] (drop (length sep) cs) = [r]"
      unfolding split_part_match [OF True] by simp_all
    then have "r = rev [] @ rest" unfolding d by (intro split_part_single)
    with l rest show ?thesis by simp
  next
    case False
    from 3(3) have "split_part (s # sep) (c # part) cs = [l, r]"
      unfolding split_part_step [OF False] .
    from 3(2) [OF False this] show ?thesis by simp
  qed
qed

lemma split_part_sep:
  "str_in (a # sep) s \<Longrightarrow> 2 \<le> length (split_part (a # sep) part s)"
proof (induction s arbitrary: part)
  case Nil
  then show ?case by simp
next
  case (Cons c cs)
  show ?case
  proof (cases "prefix (a # sep) (c # cs)")
    case True
    show ?thesis unfolding split_part_match [OF True]
      by (cases "split_part (a # sep) [] (drop (length sep) cs)") (simp_all add: split_part_nonempty)
  next
    case False
    with Cons.prems have "str_in (a # sep) cs" by auto
    then have "2 \<le> length (split_part (a # sep) (c # part) cs)" by (rule Cons.IH)
    then show ?thesis unfolding split_part_step [OF False] .
  qed
qed

lemma split_sep_no_sep: "\<not> str_in sep s \<Longrightarrow> split_sep s sep = [s]"
  by (simp add: split_sep_def split_part_no_sep)

lemma split_sep_two: "split_sep s sep = [l, r] \<Longrightarrow> s = l @ sep @ r"
  using split_part_two [of sep "[]" s l r] by (simp add: split_sep_def)

lemma split_sep_nonempty: "split_sep s sep \<noteq> []"
  by (simp add: split_sep_def split_part_nonempty)

lemma split_sep_sep: "str_in (a # sep) s \<Longrightarrow> 2 \<le> length (split_sep s (a # sep))"
  by (simp add: split_sep_def split_part_sep)

lemma split_sep_parts_str_in: "1 < length (split_sep s sep) \<Longrightarrow> str_in sep s"
  using split_sep_no_sep [of sep s] by fastforce

section \<open>The normalization pipeline\<close>

lemma lower_token:
  assumes "w \<in> set (split_ws (filter P (lower t)))"
  shows "lower w = w"
proof -
  from assms have "set w \<subseteq> set (lower t)"
    using split_ws_words [of w "filter P (lower t)"] by auto
  then have "\<forall>c\<in>set w. lower_char c = c"
    by (auto simp: lower_def lower_char_idem)
  then show ?thesis by (simp add: lower_def map_idI)
qed

lemma remove_stopwords_tokens:
  "remove_stopwords stop_words (split_ws (filter P (lower t)))
   = filter (\<lambda>w. w \<notin> stop_words) (split_ws (filter P (lower t)))"
  unfolding remove_stopwords_def
proof (rule filter_cong)
  fix w
  assume "w \<in> set (split_ws (filter P (lower t)))"
  then have "lower w = w" by (rule lower_token)
  then show "(lower w \<notin> stop_words) = (w \<notin> stop_words)" by (simp only:)
qed (rule refl)

lemma preprocess_manual_normalize:
  "preprocess_manual stop_words stem text = join_space (normalize stop_words stem text)"
  by (simp add: preprocess_manual_def normalize_def to_lowercase_def remove_punctuation_def
      clean_whitespace_def stem_words_def split_ws_join_space remove_stopwords_tokens)

lemma normalize_empty: "normalize stop_words stem [] = []"
  by (simp add: normalize_def lower_def split_ws_def)

lemma remove_punctuation_dont:
  "remove_punctuation [CHR ''d'', CHR ''o'', CHR ''n'', CHR 0x27, CHR ''t''] = ''dont''"
  by (simp add: remove_punctuation_def is_punctuation_def code_point_def)

text \<open>
  Claim C7. For every input string, for every stopword set and stemmer,
  \<open>preprocess_manual\<close> applies the pipeline of the specification in its order (lowercase,
  remove each punctuation character, collapse whitespace and trim, split on whitespace,
  drop the stopwords, stem): its result is the tokens of \<open>normalize\<close> joined by single
  spaces. Removing punctuation replaces a character by nothing: \<open>don't\<close> (with the
  apostrophe, U+0027) becomes \<open>dont\<close>. The empty input gives the empty token sequence
  and the empty text.
\<close>

theorem normalization_pipeline:
  "preprocess_manual stop_words stem text = join_space (normalize stop_words stem text)
   \<and> remove_punctuation [CHR ''d'', CHR ''o'', CHR ''n'', CHR 0x27, CHR ''t''] = ''dont''
   \<and> normalize stop_words stem [] = []
   \<and> preprocess_manual stop_words stem [] = []"
  by (simp add: preprocess_manual_normalize normalize_empty remove_punctuation_dont)

section \<open>The evaluator\<close>

lemma fold_postings:
  "fold (\<lambda>token result_docs. case idx token of Some docs \<Rightarrow> result_docs \<union> docs | None \<Rightarrow> result_docs) tokens A
   = A \<union> \<Union> {docs. \<exists>token\<in>set tokens. idx token = Some docs}"
  by (induction tokens arbitrary: A) (auto split: option.splits)

lemma get_documents_for_term_tokens:
  "pp (lower (strip t)) = Inr tokens
   \<Longrightarrow> get_documents_for_term pp idx t = Inr (\<Union> {docs. \<exists>token\<in>set tokens. idx token = Some docs})"
  by (simp add: get_documents_for_term_def fold_postings)

lemma get_documents_for_term_raises:
  "pp (lower (strip t)) = Inl e \<Longrightarrow> get_documents_for_term pp idx t = Inl e"
  by (simp add: get_documents_for_term_def)

lemma strip_empty_iff: "strip q = [] \<longleftrightarrow> (\<forall>c\<in>set q. is_space c)"
proof
  assume "strip q = []"
  then have "\<forall>c\<in>set (dropWhile is_space q). is_space c"
    by (simp add: strip_def dropWhile_eq_Nil_conv)
  then have "dropWhile is_space q = []"
    by (metis hd_dropWhile hd_in_set)
  then show "\<forall>c\<in>set q. is_space c" by (simp add: dropWhile_eq_Nil_conv)
next
  assume "\<forall>c\<in>set q. is_space c"
  then have "dropWhile is_space q = []" by (simp add: dropWhile_eq_Nil_conv)
  then show "strip q = []" by (simp only: strip_def dropWhile.simps rev.simps)
qed

lemma search_boolean_blank:
  "\<forall>c\<in>set q. is_space c \<Longrightarrow> search_boolean pp idx q m = ([], [])"
  by (simp add: search_boolean_def search_boolean_try_def strip_empty_iff [symmetric])

lemma search_boolean_raise:
  "strip q \<noteq> [] \<Longrightarrow> parse_boolean_query pp idx (strip q) = Inl e
   \<Longrightarrow> search_boolean pp idx q m = ([], [''Error in Boolean search: '' @ exn_message e])"
  by (simp add: search_boolean_def search_boolean_try_def)

lemma search_boolean_return:
  "strip q \<noteq> [] \<Longrightarrow> parse_boolean_query pp idx (strip q) = Inr S
   \<Longrightarrow> search_boolean pp idx q m = (slice_to (sorted_list_of_set S) m, [])"
  by (simp add: search_boolean_def search_boolean_try_def)

lemma search_boolean_cases:
  "search_boolean pp idx q m = ([], [])
   \<or> (\<exists>e. search_boolean pp idx q m = ([], [''Error in Boolean search: '' @ exn_message e]))
   \<or> (\<exists>S. parse_boolean_query pp idx (strip q) = Inr S \<and> search_boolean pp idx q m = (slice_to (sorted_list_of_set S) m, []))"
  by (cases "parse_boolean_query pp idx (strip q)")
     (auto simp: search_boolean_def search_boolean_try_def Let_def)

lemma sorted_slice_to: "sorted xs \<Longrightarrow> sorted (slice_to xs m)"
  by (simp add: slice_to_def sorted_wrt_take)

lemma distinct_slice_to: "distinct xs \<Longrightarrow> distinct (slice_to xs m)"
  by (simp add: slice_to_def)

lemma length_slice_to: "0 \<le> m \<Longrightarrow> int (length (slice_to xs m)) \<le> m"
  by (simp add: slice_to_def)

lemma set_slice_to: "set (slice_to xs m) \<subseteq> set xs"
  by (auto simp: slice_to_def dest: in_set_takeD)

lemma slice_to_Nil: "slice_to [] m = []"
  by (simp add: slice_to_def)

lemma handle_and_not_parts:
  "length (split_sep ql '' and not '') \<noteq> 2 \<Longrightarrow> handle_and_not pp idx ql = Inr {}"
  by (auto simp: handle_and_not_def split: list.splits)

lemma handle_not_parts:
  "length (split_sep ql '' not '') \<noteq> 2 \<Longrightarrow> handle_not pp idx ql = Inr {}"
  by (auto simp: handle_not_def split: list.splits)

lemma parse_and_not:
  "str_in '' and not '' (strip (lower q))
   \<Longrightarrow> parse_boolean_query pp idx q = handle_and_not pp idx (strip (lower q))"
  by (simp add: parse_boolean_query_def)

lemma parse_not:
  "\<not> str_in '' and not '' (strip (lower q)) \<Longrightarrow> \<not> str_in '' and '' (strip (lower q))
   \<Longrightarrow> \<not> str_in '' or '' (strip (lower q)) \<Longrightarrow> str_in '' not '' (strip (lower q))
   \<Longrightarrow> parse_boolean_query pp idx q = handle_not pp idx (strip (lower q))"
  by (simp add: parse_boolean_query_def)

lemma split_sep_Nil: "split_sep [] sep = [[]]"
  by (simp add: split_sep_def)

lemma search_boolean_empty_set:
  assumes "1 < length (split_sep (strip (lower q)) sep)"
    and "parse_boolean_query pp idx (strip q) = Inr {}"
  shows "search_boolean pp idx q m = ([], [])"
proof -
  have "strip q \<noteq> []"
  proof
    assume "strip q = []"
    then have "strip (lower q) = []" unfolding strip_lower by (simp add: lower_def)
    with assms(1) show False by (simp add: split_sep_Nil)
  qed
  then show ?thesis using assms(2) by (simp add: search_boolean_return slice_to_Nil)
qed

text \<open>
  Claim C1. For every query, the evaluator recognizes exactly one operator family: the one
  the specification chooses by substring search on the lowercased, trimmed query in the
  priority order \<open>'' and not ''\<close>, \<open>'' and ''\<close>, \<open>'' or ''\<close>, \<open>'' not ''\<close>, else a single term
  group made of the whole lowercased, trimmed query. \<open>_parse_boolean_query\<close> runs the
  handler of that family and no other. The choice is the same for the query
  \<open>search_boolean\<close> has trimmed, and it is case-insensitive: two queries with the same
  lowercase form have the same family and the same evaluation.
\<close>

theorem operator_family_dispatch:
  "parse_boolean_query pp idx q =
     (case operator_family_of q of
        AndNotQuery \<Rightarrow> handle_and_not pp idx (strip (lower q))
      | AndQuery \<Rightarrow> handle_and pp idx (strip (lower q))
      | OrQuery \<Rightarrow> handle_or pp idx (strip (lower q))
      | NotQuery \<Rightarrow> handle_not pp idx (strip (lower q))
      | SingleTermQuery \<Rightarrow> get_documents_for_term pp idx (strip (lower q)))
   \<and> operator_family_of (strip q) = operator_family_of q
   \<and> (lower q = lower q' \<longrightarrow>
        operator_family_of q = operator_family_of q'
        \<and> parse_boolean_query pp idx q = parse_boolean_query pp idx q')"
  by (simp add: parse_boolean_query_def operator_family_of_def str_in_sublist strip_lower_strip Let_def)

theorem operator_family_dispatch_witness:
  "lower ''Dog AND Cat'' = lower ''dog and cat''
   \<and> operator_family_of ''Dog AND Cat'' = AndQuery
   \<and> operator_family_of ''dog and cat'' = AndQuery
   \<and> parse_boolean_query (manual_tokens {''and'', ''not''} id) [''dog'' \<mapsto> {''d1'', ''d3''}, ''cat'' \<mapsto> {''d2'', ''d3''}] ''Dog AND Cat''
     = parse_boolean_query (manual_tokens {''and'', ''not''} id) [''dog'' \<mapsto> {''d1'', ''d3''}, ''cat'' \<mapsto> {''d2'', ''d3''}] ''dog and cat''"
proof -
  have h: "lower ''Dog AND Cat'' = lower ''dog and cat''" by code_simp
  have f: "operator_family_of ''dog and cat'' = AndQuery"
    by (simp add: operator_family_of_def strip_def lower_def lower_char_def code_point_def is_space_def sublist_code)
  from h operator_family_dispatch [of "manual_tokens {''and'', ''not''} id"
      "[''dog'' \<mapsto> {''d1'', ''d3''}, ''cat'' \<mapsto> {''d2'', ''d3''}]" "''Dog AND Cat''" "''dog and cat''"]
  have "operator_family_of ''Dog AND Cat'' = operator_family_of ''dog and cat''"
    and "parse_boolean_query (manual_tokens {''and'', ''not''} id) [''dog'' \<mapsto> {''d1'', ''d3''}, ''cat'' \<mapsto> {''d2'', ''d3''}] ''Dog AND Cat''
     = parse_boolean_query (manual_tokens {''and'', ''not''} id) [''dog'' \<mapsto> {''d1'', ''d3''}, ''cat'' \<mapsto> {''d2'', ''d3''}] ''dog and cat''"
    by blast+
  with h f show ?thesis by (simp only:)
qed

text \<open>
  Claim C4, amended. For every query and every maximum, the list \<open>search_boolean\<close> returns
  is in ascending lexicographic order and has no duplicate document id; for every maximum
  that is not negative, its length is at most the maximum.
\<close>

theorem result_sorted_distinct_bounded:
  "sorted (fst (search_boolean pp idx q max_results))
   \<and> distinct (fst (search_boolean pp idx q max_results))
   \<and> (0 \<le> max_results \<longrightarrow> int (length (fst (search_boolean pp idx q max_results))) \<le> max_results)"
  using search_boolean_cases [of pp idx q max_results]
  by (auto simp: sorted_slice_to distinct_slice_to length_slice_to)

theorem result_sorted_distinct_bounded_witness:
  "(0::int) \<le> 2
   \<and> fst (search_boolean (manual_tokens {''and'', ''not''} id)
         [''dog'' \<mapsto> {''d3'', ''d1''}, ''cat'' \<mapsto> {''d2'', ''d3''}] ''dog OR cat'' 2) = [''d1'', ''d2'']
   \<and> sorted [''d1'', ''d2''] \<and> distinct [''d1'', ''d2''] \<and> int (length [''d1'', ''d2'']) \<le> 2"
proof -
  have v: "fst (search_boolean (manual_tokens {''and'', ''not''} id)
         [''dog'' \<mapsto> {''d3'', ''d1''}, ''cat'' \<mapsto> {''d2'', ''d3''}] ''dog OR cat'' 2) = [''d1'', ''d2'']"
    by code_simp
  show ?thesis
    using result_sorted_distinct_bounded [of "manual_tokens {''and'', ''not''} id"
         "[''dog'' \<mapsto> {''d3'', ''d1''}, ''cat'' \<mapsto> {''d2'', ''d3''}]" "''dog OR cat''" 2]
    unfolding v by simp
qed

text \<open>
  Claim C4 as stated fails for a negative maximum: \<open>results[:max_results]\<close> then drops
  results from the end and returns a list, whose length is not at most the maximum. With
  the maximum -1 the code returns the empty list for the query \<open>dog\<close>; with a preprocessor
  that returns tokens it would return two of the three documents of \<open>dog OR cat\<close>.
\<close>

theorem result_length_counterexample:
  "search_boolean DocumentPreprocessor_preprocess_text [''dog'' \<mapsto> {''d1''}] ''dog'' (- 1)
     = ([], [''Error in Boolean search: DocumentPreprocessor object has no attribute preprocess_text''])
   \<and> \<not> int (length (fst (search_boolean DocumentPreprocessor_preprocess_text
                         [''dog'' \<mapsto> {''d1''}] ''dog'' (- 1)))) \<le> - 1
   \<and> search_boolean (manual_tokens {''and'', ''not''} id)
         [''dog'' \<mapsto> {''d3'', ''d1''}, ''cat'' \<mapsto> {''d2'', ''d3''}] ''dog OR cat'' (- 1)
     = ([''d1'', ''d2''], [])
   \<and> \<not> int (length (fst (search_boolean (manual_tokens {''and'', ''not''} id)
         [''dog'' \<mapsto> {''d3'', ''d1''}, ''cat'' \<mapsto> {''d2'', ''d3''}] ''dog OR cat'' (- 1)))) \<le> - 1"
proof -
  have a: "search_boolean DocumentPreprocessor_preprocess_text [''dog'' \<mapsto> {''d1''}] ''dog'' (- 1)
     = ([], [''Error in Boolean search: DocumentPreprocessor object has no attribute preprocess_text''])"
    by code_simp
  have b: "search_boolean (manual_tokens {''and'', ''not''} id)
         [''dog'' \<mapsto> {''d3'', ''d1''}, ''cat'' \<mapsto> {''d2'', ''d3''}] ''dog OR cat'' (- 1)
     = ([''d1'', ''d2''], [])"
    by code_simp
  show ?thesis unfolding a b by simp
qed

text \<open>
  Claim C5. \<open>search_boolean\<close> never raises to the caller: it returns a result list for every
  query, index, maximum and behaviour of the preprocessor. A blank query (empty or
  whitespace only) evaluates to the empty result and nothing is reported. For a query
  that is not blank, an exception raised while the query is evaluated is caught: the
  result is empty and the error is reported, with the message of the exception.
\<close>

theorem search_boolean_never_raises:
  "((\<forall>c\<in>set q. is_space c) \<longrightarrow> search_boolean pp idx q max_results = ([], []))
   \<and> ((\<exists>c\<in>set q. \<not> is_space c) \<and> parse_boolean_query pp idx (strip q) = Inl e \<longrightarrow>
        search_boolean pp idx q max_results = ([], [''Error in Boolean search: '' @ exn_message e]))"
  using search_boolean_blank [of q pp idx max_results] search_boolean_raise [of q pp idx e max_results]
  by (auto simp: strip_empty_iff)

theorem search_boolean_never_raises_witness:
  "search_boolean DocumentPreprocessor_preprocess_text [''dog'' \<mapsto> {''d1''}] [CHR '' '', CHR 0x09, CHR '' ''] 100 = ([], [])
   \<and> search_boolean DocumentPreprocessor_preprocess_text [''dog'' \<mapsto> {''d1''}] ''dog'' 100
       = ([], [''Error in Boolean search: DocumentPreprocessor object has no attribute preprocess_text''])"
proof -
  have blank: "\<forall>c\<in>set [CHR '' '', CHR 0x09, CHR '' '']. is_space c"
    by (simp add: is_space_def code_point_def)
  have word: "\<exists>c\<in>set ''dog''. \<not> is_space c"
    by (simp add: is_space_def code_point_def)
  have raises: "parse_boolean_query DocumentPreprocessor_preprocess_text [''dog'' \<mapsto> {''d1''}] (strip ''dog'')
      = Inl (AttributeError ''DocumentPreprocessor object has no attribute preprocess_text'')"
    by code_simp
  show ?thesis
    using blank word raises
      search_boolean_never_raises [of "[CHR '' '', CHR 0x09, CHR '' '']"
        DocumentPreprocessor_preprocess_text "[''dog'' \<mapsto> {''d1''}]" 100]
      search_boolean_never_raises [of "''dog''"
        DocumentPreprocessor_preprocess_text "[''dog'' \<mapsto> {''d1''}]" 100
        "AttributeError ''DocumentPreprocessor object has no attribute preprocess_text''"]
    by simp
qed

text \<open>
  Claim C6. For every query whose lowercased, trimmed form contains none of
  \<open>'' and not ''\<close>, \<open>'' and ''\<close> and \<open>'' or ''\<close>, and more than one separator \<open>'' not ''\<close> (splitting
  on it gives more than two parts), evaluation gives the empty result, and no error is
  raised or reported.
\<close>

theorem not_more_than_one_separator:
  assumes "\<not> str_in '' and not '' (strip (lower q))"
    and "\<not> str_in '' and '' (strip (lower q))"
    and "\<not> str_in '' or '' (strip (lower q))"
    and "2 < length (split_sep (strip (lower q)) '' not '')"
  shows "search_boolean pp idx q max_results = ([], [])"
proof -
  from assms(4) have "str_in '' not '' (strip (lower q))"
    by (intro split_sep_parts_str_in) simp
  then have "parse_boolean_query pp idx (strip q) = handle_not pp idx (strip (lower q))"
    using parse_not [of "strip q" pp idx] assms(1-3) by (simp add: strip_lower_strip)
  also have "\<dots> = Inr {}" using assms(4) by (intro handle_not_parts) simp
  finally show ?thesis using assms(4) by (intro search_boolean_empty_set [where sep = "'' not ''"]) simp_all
qed

theorem not_more_than_one_separator_witness:
  "\<not> str_in '' and not '' (strip (lower ''dog NOT cat NOT bird''))
   \<and> \<not> str_in '' and '' (strip (lower ''dog NOT cat NOT bird''))
   \<and> \<not> str_in '' or '' (strip (lower ''dog NOT cat NOT bird''))
   \<and> 2 < length (split_sep (strip (lower ''dog NOT cat NOT bird'')) '' not '')
   \<and> search_boolean (manual_tokens {''and'', ''not''} id)
         [''dog'' \<mapsto> {''d1'', ''d3''}, ''cat'' \<mapsto> {''d2'', ''d3''}]
         ''dog NOT cat NOT bird'' 100 = ([], [])"
proof -
  have h1: "\<not> str_in '' and not '' (strip (lower ''dog NOT cat NOT bird''))" by code_simp
  have h2: "\<not> str_in '' and '' (strip (lower ''dog NOT cat NOT bird''))" by code_simp
  have h3: "\<not> str_in '' or '' (strip (lower ''dog NOT cat NOT bird''))" by code_simp
  have h4: "2 < length (split_sep (strip (lower ''dog NOT cat NOT bird'')) '' not '')" by code_simp
  show ?thesis using h1 h2 h3 h4 not_more_than_one_separator [OF h1 h2 h3 h4] by simp
qed

text \<open>
  Claim C10. For every query whose lowercased, trimmed form splits on \<open>'' and not ''\<close> into
  more than two parts, \<open>search_boolean\<close> returns the empty list (and reports nothing): the
  AND NOT handler requires exactly two parts.
\<close>

theorem and_not_more_than_two_parts:
  assumes "2 < length (split_sep (strip (lower q)) '' and not '')"
  shows "search_boolean pp idx q max_results = ([], [])"
proof -
  from assms have "str_in '' and not '' (strip (lower q))"
    by (intro split_sep_parts_str_in) simp
  then have "parse_boolean_query pp idx (strip q) = handle_and_not pp idx (strip (lower q))"
    using parse_and_not [of "strip q" pp idx] by (simp add: strip_lower_strip)
  also have "\<dots> = Inr {}" using assms by (intro handle_and_not_parts) simp
  finally show ?thesis using assms by (intro search_boolean_empty_set [where sep = "'' and not ''"]) simp_all
qed

theorem and_not_more_than_two_parts_witness:
  "2 < length (split_sep (strip (lower ''dog AND NOT cat AND NOT bird'')) '' and not '')
   \<and> search_boolean (manual_tokens {''and'', ''not''} id)
         [''dog'' \<mapsto> {''d1'', ''d3''}, ''cat'' \<mapsto> {''d2'', ''d3''}]
         ''dog AND NOT cat AND NOT bird'' 100 = ([], [])"
proof -
  have h: "2 < length (split_sep (strip (lower ''dog AND NOT cat AND NOT bird'')) '' and not '')"
    by code_simp
  show ?thesis using h and_not_more_than_two_parts [OF h] by simp
qed

section \<open>Term-group resolution\<close>

text \<open>
  What \<open>_get_documents_for_term\<close> does with the preprocessor of the repository: the lookup
  of \<open>preprocess_text\<close> raises, for every term group and every index.
\<close>

lemma get_documents_for_term_src:
  "get_documents_for_term DocumentPreprocessor_preprocess_text idx t
     = Inl (AttributeError ''DocumentPreprocessor object has no attribute preprocess_text'')"
  by (simp add: get_documents_for_term_def DocumentPreprocessor_preprocess_text_def)

text \<open>
  Claim C2. The claim says that a term group resolves to the union of the index entries
  of its normalized tokens, tokens absent from the index contributing nothing and a group
  without tokens resolving to the empty set. The loop of \<open>_get_documents_for_term\<close> does
  that with the tokens it is given (\<open>get_documents_for_term_tokens\<close>), and its docstring
  promises the preprocessing of indexing time; but the tokens are to come from
  \<open>self.preprocessor.preprocess_text\<close>, which \<open>DocumentPreprocessor\<close> does not define. On
  the code, resolving the term group \<open>dog\<close> against an index that lists \<open>dog\<close> in
  document \<open>d1\<close> raises AttributeError instead of returning \<open>{d1}\<close>, and the search for
  \<open>dog\<close> returns the empty list and reports the error.
\<close>

theorem term_group_resolution_raises:
  "get_documents_for_term DocumentPreprocessor_preprocess_text [''dog'' \<mapsto> {''d1''}] ''dog''
     = Inl (AttributeError ''DocumentPreprocessor object has no attribute preprocess_text'')
   \<and> search_boolean DocumentPreprocessor_preprocess_text [''dog'' \<mapsto> {''d1''}] ''dog'' 100
     = ([], [''Error in Boolean search: DocumentPreprocessor object has no attribute preprocess_text''])"
  by code_simp

section \<open>The AND NOT form\<close>

text \<open>
  Claim C3, amended. For every query whose lowercased, trimmed form splits on
  \<open>'' and not ''\<close> into exactly two parts, the left part is everything before the separator
  and the right part everything after it; the left part is resolved as an AND group when
  (trimmed) it contains \<open>'' and ''\<close> and as a single term group otherwise; and whenever the
  left resolution and the term-group resolution of the right part return, the result of
  the query is the left resolution minus the resolution of the right part.
\<close>

theorem and_not_two_parts:
  assumes "split_sep (strip (lower q)) '' and not '' = [l, r]"
    and "(if str_in '' and '' (strip l) then handle_and pp idx (strip l)
          else get_documents_for_term pp idx (strip l)) = Inr left_docs"
    and "get_documents_for_term pp idx (strip r) = Inr right_docs"
  shows "strip (lower q) = l @ '' and not '' @ r
    \<and> parse_boolean_query pp idx q = Inr (left_docs - right_docs)"
proof -
  from assms(1) have "str_in '' and not '' (strip (lower q))"
    by (intro split_sep_parts_str_in) simp
  then have "parse_boolean_query pp idx q = handle_and_not pp idx (strip (lower q))"
    by (rule parse_and_not)
  also have "\<dots> = Inr (left_docs - right_docs)"
    using assms by (simp add: handle_and_not_def)
  finally show ?thesis using split_sep_two [OF assms(1)] by simp
qed

theorem and_not_two_parts_witness:
  "split_sep (strip (lower ''Dog AND cat AND NOT bird'')) '' and not '' = [''dog and cat'', ''bird'']
   \<and> (if str_in '' and '' (strip ''dog and cat'')
        then handle_and (manual_tokens {''and'', ''not''} id)
               [''dog'' \<mapsto> {''d1'', ''d3''}, ''cat'' \<mapsto> {''d2'', ''d3''}, ''bird'' \<mapsto> {''d4''}] (strip ''dog and cat'')
        else get_documents_for_term (manual_tokens {''and'', ''not''} id)
               [''dog'' \<mapsto> {''d1'', ''d3''}, ''cat'' \<mapsto> {''d2'', ''d3''}, ''bird'' \<mapsto> {''d4''}] (strip ''dog and cat''))
       = Inr {''d3''}
   \<and> get_documents_for_term (manual_tokens {''and'', ''not''} id)
         [''dog'' \<mapsto> {''d1'', ''d3''}, ''cat'' \<mapsto> {''d2'', ''d3''}, ''bird'' \<mapsto> {''d4''}] (strip ''bird'')
       = Inr {''d4''}
   \<and> strip (lower ''Dog AND cat AND NOT bird'') = ''dog and cat'' @ '' and not '' @ ''bird''
   \<and> parse_boolean_query (manual_tokens {''and'', ''not''} id)
         [''dog'' \<mapsto> {''d1'', ''d3''}, ''cat'' \<mapsto> {''d2'', ''d3''}, ''bird'' \<mapsto> {''d4''}]
         ''Dog AND cat AND NOT bird'' = Inr ({''d3''} - {''d4''})"
proof -
  have h1: "split_sep (strip (lower ''Dog AND cat AND NOT bird'')) '' and not '' = [''dog and cat'', ''bird'']"
    by code_simp
  have h2: "(if str_in '' and '' (strip ''dog and cat'')
        then handle_and (manual_tokens {''and'', ''not''} id)
               [''dog'' \<mapsto> {''d1'', ''d3''}, ''cat'' \<mapsto> {''d2'', ''d3''}, ''bird'' \<mapsto> {''d4''}] (strip ''dog and cat'')
        else get_documents_for_term (manual_tokens {''and'', ''not''} id)
               [''dog'' \<mapsto> {''d1'', ''d3''}, ''cat'' \<mapsto> {''d2'', ''d3''}, ''bird'' \<mapsto> {''d4''}] (strip ''dog and cat''))
       = Inr {''d3''}"
    by code_simp
  have h3: "get_documents_for_term (manual_tokens {''and'', ''not''} id)
         [''dog'' \<mapsto> {''d1'', ''d3''}, ''cat'' \<mapsto> {''d2'', ''d3''}, ''bird'' \<mapsto> {''d4''}] (strip ''bird'')
       = Inr {''d4''}"
    by code_simp
  from and_not_two_parts [OF h1 h2 h3] h1 h2 h3 show ?thesis by (simp only:)
qed

text \<open>
  Claim C3 as stated fails for a query with a second \<open>'' and not ''\<close>: the code splits on
  every occurrence and, with more than two parts, returns the empty set, where splitting
  once at the first occurrence gives \<open>dog\<close> minus \<open>cat and not bird\<close>, the document \<open>d1\<close>.
\<close>

theorem and_not_first_occurrence_counterexample:
  "str_in '' and not '' (strip (lower ''dog and not cat and not bird''))
   \<and> parse_boolean_query DocumentPreprocessor_preprocess_text
         [''dog'' \<mapsto> {''d1'', ''d3''}, ''cat'' \<mapsto> {''d2'', ''d3''}] ''dog and not cat and not bird'' = Inr {}
   \<and> parse_boolean_query (manual_tokens {''and'', ''not''} id)
         [''dog'' \<mapsto> {''d1'', ''d3''}, ''cat'' \<mapsto> {''d2'', ''d3''}] ''dog and not cat and not bird'' = Inr {}
   \<and> and_not_at_first_occurrence (manual_tokens {''and'', ''not''} id)
         [''dog'' \<mapsto> {''d1'', ''d3''}, ''cat'' \<mapsto> {''d2'', ''d3''}] ''dog and not cat and not bird''
       = Some (Inr {''d1''})"
  by code_simp

section \<open>The inverted index\<close>

lemma add_posting_index:
  "(\<exists>docs. inverted_index (add_posting cid t s) T = Some docs \<and> D \<in> docs)
   \<longleftrightarrow> (\<exists>docs. inverted_index s T = Some docs \<and> D \<in> docs) \<or> (D = cid \<and> T = t)"
  by (auto simp: add_posting_def split: option.splits)

lemma fold_add_posting_index:
  "(\<exists>docs. inverted_index (fold (add_posting cid) ts s) T = Some docs \<and> D \<in> docs)
   \<longleftrightarrow> (\<exists>docs. inverted_index s T = Some docs \<and> D \<in> docs) \<or> (D = cid \<and> T \<in> set ts)"
proof (induction ts arbitrary: s)
  case Nil
  then show ?case by simp
next
  case (Cons t ts)
  show ?case
    unfolding fold_Cons comp_apply Cons.IH add_posting_index by auto
qed

lemma index_document_index:
  "(\<exists>docs. inverted_index (index_document reader i s) T = Some docs \<and> D \<in> docs)
   \<longleftrightarrow> (\<exists>docs. inverted_index s T = Some docs \<and> D \<in> docs)
       \<or> (convert_internal_docid_to_collection_docid reader i = Inr D
          \<and> (\<exists>d c v. doc reader D = Inr (Some d) \<and> contents d = Inr c
                \<and> get_document_vector reader D = Inr (Some v) \<and> T \<in> fst ` set v))"
proof (cases "convert_internal_docid_to_collection_docid reader i")
  case (Inl e)
  then show ?thesis by (simp add: index_document_def)
next
  case (Inr cid)
  note cid = this
  show ?thesis
  proof (cases "doc reader cid")
    case (Inl e)
    with cid show ?thesis by (auto simp: index_document_def)
  next
    case (Inr dopt)
    note dopt = this
    show ?thesis
    proof (cases dopt)
      case None
      with cid dopt show ?thesis by (auto simp: index_document_def)
    next
      case (Some d)
      note d = this
      show ?thesis
      proof (cases "contents d")
        case (Inl e)
        with cid dopt d show ?thesis by (auto simp: index_document_def)
      next
        case (Inr c)
        note c = this
        show ?thesis
        proof (cases "get_document_vector reader cid")
          case (Inl e)
          with cid dopt d c show ?thesis by (auto simp: index_document_def)
        next
          case (Inr vopt)
          with cid dopt d c show ?thesis
            by (cases vopt) (auto simp: index_document_def fold_add_posting_index)
        qed
      qed
    qed
  qed
qed

lemma fold_index_document_index:
  "(\<exists>docs. inverted_index (fold (index_document reader) is s) T = Some docs \<and> D \<in> docs)
   \<longleftrightarrow> (\<exists>docs. inverted_index s T = Some docs \<and> D \<in> docs)
       \<or> (\<exists>i\<in>set is. convert_internal_docid_to_collection_docid reader i = Inr D)
          \<and> (\<exists>d c v. doc reader D = Inr (Some d) \<and> contents d = Inr c
                \<and> get_document_vector reader D = Inr (Some v) \<and> T \<in> fst ` set v)"
proof (induction "is" arbitrary: s)
  case Nil
  then show ?case by simp
next
  case (Cons i "is")
  show ?case
    unfolding fold_Cons comp_apply Cons.IH index_document_index by auto
qed

text \<open>
  Claim C8. The normalized content of a document is what the index engine stores for
  it, and the terms occurring in it are the keys of the document vector the engine
  returns. After \<open>build_inverted_index\<close> has run on the empty index, for every term \<open>T\<close> and
  every document id \<open>D\<close>: \<open>D\<close> is in the entry of \<open>T\<close> if and only if \<open>D\<close> is a document of the
  engine (an internal id below the document count converts to it) that can be read (the
  document, its contents and its vector are returned) and \<open>T\<close> is a term of its vector.
\<close>

theorem index_invariant:
  "(\<exists>docs. inverted_index (build_inverted_index reader) T = Some docs \<and> D \<in> docs)
   \<longleftrightarrow> (\<exists>i < stats_documents reader. convert_internal_docid_to_collection_docid reader i = Inr D)
       \<and> (\<exists>d c v. doc reader D = Inr (Some d) \<and> contents d = Inr c
             \<and> get_document_vector reader D = Inr (Some v) \<and> T \<in> fst ` set v)"
  unfolding build_inverted_index_def fold_index_document_index by auto

theorem index_invariant_witness:
  "(\<exists>docs. inverted_index (build_inverted_index
        \<lparr>stats_documents = 2,
         convert_internal_docid_to_collection_docid = (\<lambda>i. Inr (if i = 0 then ''d1'' else ''d2'')),
         doc = (\<lambda>D. Inr (Some \<lparr>contents = Inr (Some (if D = ''d1'' then ''quick brown dog'' else ''lazi cat''))\<rparr>)),
         get_document_vector = (\<lambda>D. Inr (Some (if D = ''d1'' then [(''quick'', 1), (''brown'', 1), (''dog'', 1)]
                                               else [(''lazi'', 1), (''cat'', 1)])))\<rparr>) ''dog'' = Some docs
      \<and> ''d1'' \<in> docs)
   \<and> \<not> (\<exists>docs. inverted_index (build_inverted_index
        \<lparr>stats_documents = 2,
         convert_internal_docid_to_collection_docid = (\<lambda>i. Inr (if i = 0 then ''d1'' else ''d2'')),
         doc = (\<lambda>D. Inr (Some \<lparr>contents = Inr (Some (if D = ''d1'' then ''quick brown dog'' else ''lazi cat''))\<rparr>)),
         get_document_vector = (\<lambda>D. Inr (Some (if D = ''d1'' then [(''quick'', 1), (''brown'', 1), (''dog'', 1)]
                                               else [(''lazi'', 1), (''cat'', 1)])))\<rparr>) ''dog'' = Some docs
      \<and> ''d2'' \<in> docs)"
  unfolding index_invariant by auto

section \<open>The verifier and the evaluator\<close>

lemma and_loop_Inr:
  "and_loop pp idx A ts = Inr P
   \<Longrightarrow> P \<subseteq> A \<and> (\<forall>t\<in>set ts. \<exists>R. get_documents_for_term pp idx t = Inr R \<and> P \<subseteq> R)"
proof (induction ts arbitrary: A)
  case Nil
  then show ?case by simp
next
  case (Cons t ts)
  from Cons.prems obtain R where R: "get_documents_for_term pp idx t = Inr R"
    and loop: "and_loop pp idx (A \<inter> R) ts = Inr P"
    by (auto split: sum.splits)
  from Cons.IH [OF loop] R show ?case by auto
qed

lemma handle_and_Inr:
  assumes "handle_and pp idx q = Inr P"
  shows "\<forall>t\<in>set (map strip (split_sep q '' and '')). \<exists>R. get_documents_for_term pp idx t = Inr R \<and> P \<subseteq> R"
proof (cases "map strip (split_sep q '' and '')")
  case Nil
  then show ?thesis by simp
next
  case (Cons t ts)
  with assms obtain R where R: "get_documents_for_term pp idx t = Inr R"
    and loop: "and_loop pp idx R ts = Inr P"
    by (auto simp: handle_and_def split: sum.splits)
  from and_loop_Inr [OF loop] R show ?thesis unfolding Cons by auto
qed

lemma or_loop_Inr:
  "or_loop pp idx A ts = Inr S
   \<Longrightarrow> (\<forall>t\<in>set ts. \<exists>R. get_documents_for_term pp idx t = Inr R)
     \<and> (\<forall>d\<in>S. d \<in> A \<or> (\<exists>t\<in>set ts. \<exists>R. get_documents_for_term pp idx t = Inr R \<and> d \<in> R))"
proof (induction ts arbitrary: A)
  case Nil
  then show ?case by simp
next
  case (Cons t ts)
  from Cons.prems obtain R where R: "get_documents_for_term pp idx t = Inr R"
    and loop: "or_loop pp idx (A \<union> R) ts = Inr S"
    by (auto split: sum.splits)
  from Cons.IH [OF loop] R show ?case by auto
qed

lemma verify_and_terms_found:
  "\<forall>t\<in>set ts. \<exists>R. get_documents_for_term pp idx t = Inr R \<and> d \<in> R
   \<Longrightarrow> verify_and_terms pp idx d ts (found, missing, v) = Inr (found @ ts, missing, v)"
  by (induction ts arbitrary: found) auto

lemma missing_positive_terms_none:
  "\<forall>t\<in>set ts. \<exists>R. get_documents_for_term pp idx t = Inr R \<and> d \<in> R
   \<Longrightarrow> missing_positive_terms pp idx d ts missing = Inr missing"
  by (induction ts) auto

lemma verify_or_terms_found:
  "\<forall>t\<in>set ts. \<exists>R. get_documents_for_term pp idx t = Inr R
   \<Longrightarrow> \<exists>found'. verify_or_terms pp idx d ts (found_any, found)
        = Inr (found_any \<or> (\<exists>t\<in>set ts. \<exists>R. get_documents_for_term pp idx t = Inr R \<and> d \<in> R), found')"
proof (induction ts arbitrary: found_any found)
  case Nil
  then show ?case by simp
next
  case (Cons t ts)
  then obtain R where R: "get_documents_for_term pp idx t = Inr R" by auto
  from Cons.prems have rest: "\<forall>t\<in>set ts. \<exists>R. get_documents_for_term pp idx t = Inr R" by simp
  show ?case
  proof (cases "d \<in> R")
    case True
    from Cons.IH [OF rest, of True "found @ [t]"] R True show ?thesis by auto
  next
    case False
    from Cons.IH [OF rest, of found_any found] R False show ?thesis by auto
  qed
qed

lemma check_excluded_absent:
  "get_documents_for_term pp idx t = Inr N \<Longrightarrow> d \<notin> N \<Longrightarrow> check_excluded pp idx t d v = Inr v"
  by (simp add: check_excluded_def)

lemma not_two_parts: "\<not> (\<exists>p0 p1. xs = [p0, p1]) \<Longrightarrow> length xs \<noteq> 2"
proof (cases xs)
  case Nil
  then show ?thesis by simp
next
  case (Cons a ys)
  note xs = this
  assume no: "\<not> (\<exists>p0 p1. xs = [p0, p1])"
  show ?thesis
  proof (cases ys)
    case Nil
    with xs show ?thesis by simp
  next
    case (Cons b zs)
    with xs no have "zs \<noteq> []" by auto
    with xs Cons show ?thesis by simp
  qed
qed

lemma verify_and_not_ok:
  assumes "handle_and_not pp idx ql = Inr S" and "d \<in> S"
  shows "\<exists>v'. verify_and_not_logic pp idx ql d v = Inr v' \<and> logic_correct v' = logic_correct v"
proof (cases "\<exists>p0 p1. split_sep ql '' and not '' = [p0, p1]")
  case False
  then have "length (split_sep ql '' and not '') \<noteq> 2"
    by (rule not_two_parts)
  then have "handle_and_not pp idx ql = Inr {}" by (rule handle_and_not_parts)
  with assms show ?thesis by simp
next
  case True
  then obtain p0 p1 where parts: "split_sep ql '' and not '' = [p0, p1]" by blast
  from assms(1) obtain P N where
    left: "(if str_in '' and '' (strip p0) then handle_and pp idx (strip p0)
            else get_documents_for_term pp idx (strip p0)) = Inr P"
    and right: "get_documents_for_term pp idx (strip p1) = Inr N"
    and S: "S = P - N"
    unfolding handle_and_not_def parts by (auto simp: Let_def split: sum.splits)
  from assms(2) S have dP: "d \<in> P" and dN: "d \<notin> N" by auto
  show ?thesis
  proof (cases "str_in '' and '' (strip p0)")
    case True
    with left have "handle_and pp idx (strip p0) = Inr P" by simp
    from handle_and_Inr [OF this] dP
    have "\<forall>t\<in>set (map strip (split_sep (strip p0) '' and '')).
            \<exists>R. get_documents_for_term pp idx t = Inr R \<and> d \<in> R"
      by blast
    then have "missing_positive_terms pp idx d (map strip (split_sep (strip p0) '' and '')) [] = Inr []"
      by (rule missing_positive_terms_none)
    with True parts check_excluded_absent [OF right dN] show ?thesis
      by (simp add: verify_and_not_logic_def)
  next
    case False
    with left have "get_documents_for_term pp idx (strip p0) = Inr P" by simp
    with False parts dP check_excluded_absent [OF right dN] show ?thesis
      by (simp add: verify_and_not_logic_def)
  qed
qed

lemma verify_not_ok:
  assumes "handle_not pp idx ql = Inr S" and "d \<in> S"
  shows "\<exists>v'. verify_not_logic pp idx ql d v = Inr v' \<and> logic_correct v' = logic_correct v"
proof (cases "\<exists>p0 p1. split_sep ql '' not '' = [p0, p1]")
  case False
  then have "length (split_sep ql '' not '') \<noteq> 2"
    by (rule not_two_parts)
  then have "handle_not pp idx ql = Inr {}" by (rule handle_not_parts)
  with assms show ?thesis by simp
next
  case True
  then obtain p0 p1 where parts: "split_sep ql '' not '' = [p0, p1]" by blast
  from assms(1) obtain P N where
    left: "get_documents_for_term pp idx (strip p0) = Inr P"
    and right: "get_documents_for_term pp idx (strip p1) = Inr N"
    and S: "S = P - N"
    unfolding handle_not_def parts by (auto split: sum.splits)
  from assms(2) S have dP: "d \<in> P" and dN: "d \<notin> N" by auto
  with left parts check_excluded_absent [OF right dN] show ?thesis
    by (simp add: verify_not_logic_def)
qed

lemma verify_and_ok:
  assumes "handle_and pp idx ql = Inr S" and "d \<in> S"
  shows "\<exists>v'. verify_and_logic pp idx ql d v = Inr v' \<and> logic_correct v' = logic_correct v"
proof -
  from handle_and_Inr [OF assms(1)] assms(2)
  have "\<forall>t\<in>set (map strip (split_sep ql '' and '')).
          \<exists>R. get_documents_for_term pp idx t = Inr R \<and> d \<in> R"
    by blast
  then have "verify_and_terms pp idx d (map strip (split_sep ql '' and '')) ([], [], v)
      = Inr ([] @ map strip (split_sep ql '' and ''), [], v)"
    by (rule verify_and_terms_found)
  then show ?thesis by (simp add: verify_and_logic_def Let_def)
qed

lemma verify_or_ok:
  assumes "handle_or pp idx ql = Inr S" and "d \<in> S"
  shows "\<exists>v'. verify_or_logic pp idx ql d v = Inr v' \<and> logic_correct v' = logic_correct v"
proof -
  let ?ts = "map strip (split_sep ql '' or '')"
  from assms(1) have loop: "or_loop pp idx {} ?ts = Inr S" by (simp add: handle_or_def)
  from or_loop_Inr [OF loop] assms(2)
  have all: "\<forall>t\<in>set ?ts. \<exists>R. get_documents_for_term pp idx t = Inr R"
    and some: "\<exists>t\<in>set ?ts. \<exists>R. get_documents_for_term pp idx t = Inr R \<and> d \<in> R"
    by auto
  from verify_or_terms_found [OF all, of d False "[]"] some
  obtain found' where "verify_or_terms pp idx d ?ts (False, []) = Inr (True, found')"
    by auto
  then show ?thesis by (simp add: verify_or_logic_def Let_def)
qed

lemma verify_document_ok:
  assumes "parse_boolean_query pp idx q = Inr S" and "d \<in> S"
  shows "\<exists>v'. verify_document pp idx (strip (lower q)) d v = Inr v' \<and> logic_correct v' = logic_correct v"
proof -
  let ?ql = "strip (lower q)"
  consider (c1) "str_in '' and not '' ?ql"
    | (c2) "\<not> str_in '' and not '' ?ql" "str_in '' and '' ?ql"
    | (c3) "\<not> str_in '' and not '' ?ql" "\<not> str_in '' and '' ?ql" "str_in '' or '' ?ql"
    | (c4) "\<not> str_in '' and not '' ?ql" "\<not> str_in '' and '' ?ql" "\<not> str_in '' or '' ?ql"
        "str_in '' not '' ?ql"
    | (c5) "\<not> str_in '' and not '' ?ql" "\<not> str_in '' and '' ?ql" "\<not> str_in '' or '' ?ql"
        "\<not> str_in '' not '' ?ql"
    by blast
  then show ?thesis
  proof cases
    case c1
    with assms(1) have "handle_and_not pp idx ?ql = Inr S" by (simp add: parse_boolean_query_def)
    from verify_and_not_ok [OF this assms(2), of v] c1 show ?thesis
      by (simp add: verify_document_def)
  next
    case c2
    with assms(1) have "handle_and pp idx ?ql = Inr S" by (simp add: parse_boolean_query_def)
    from verify_and_ok [OF this assms(2), of v] c2 show ?thesis
      by (simp add: verify_document_def)
  next
    case c3
    with assms(1) have "handle_or pp idx ?ql = Inr S" by (simp add: parse_boolean_query_def)
    from verify_or_ok [OF this assms(2), of v] c3 show ?thesis
      by (simp add: verify_document_def)
  next
    case c4
    with assms(1) have "handle_not pp idx ?ql = Inr S" by (simp add: parse_boolean_query_def)
    from verify_not_ok [OF this assms(2), of v] c4 show ?thesis
      by (simp add: verify_document_def)
  next
    case c5
    then show ?thesis by (simp add: verify_document_def)
  qed
qed

lemma verify_results_ok:
  assumes "parse_boolean_query pp idx q = Inr S"
  shows "set ds \<subseteq> S
    \<Longrightarrow> \<exists>v'. verify_results pp idx (strip (lower q)) ds v = Inr v' \<and> logic_correct v' = logic_correct v"
proof (induction ds arbitrary: v)
  case Nil
  then show ?case by simp
next
  case (Cons d ds)
  then have "d \<in> S" and rest: "set ds \<subseteq> S" by simp_all
  from verify_document_ok [OF assms \<open>d \<in> S\<close>, of v] obtain v1
    where v1: "verify_document pp idx (strip (lower q)) d v = Inr v1"
      and c1: "logic_correct v1 = logic_correct v" by blast
  from Cons.IH [OF rest, of v1] obtain v2
    where "verify_results pp idx (strip (lower q)) ds v1 = Inr v2"
      and "logic_correct v2 = logic_correct v1" by blast
  with v1 c1 show ?case by simp
qed

lemma set_sorted_list_of_set_subset: "set (sorted_list_of_set S) \<subseteq> S"
  by (cases "finite S") (simp_all add: sorted_list_of_set.fold_insort_key.infinite)

lemma verifier_agrees_trimmed:
  assumes "strip q = q"
  shows "\<exists>v. verify_boolean_logic pp idx q (fst (search_boolean pp idx q m)) = Inr v \<and> logic_correct v"
proof -
  have ql: "lower q = strip (lower q)" unfolding strip_lower assms ..
  from search_boolean_cases [of pp idx q m]
  have "fst (search_boolean pp idx q m) = []
    \<or> (\<exists>S. parse_boolean_query pp idx q = Inr S
           \<and> fst (search_boolean pp idx q m) = slice_to (sorted_list_of_set S) m)"
    unfolding assms by auto
  then show ?thesis
  proof
    assume "fst (search_boolean pp idx q m) = []"
    then show ?thesis by (simp add: verify_boolean_logic_def)
  next
    assume "\<exists>S. parse_boolean_query pp idx q = Inr S
           \<and> fst (search_boolean pp idx q m) = slice_to (sorted_list_of_set S) m"
    then obtain S where S: "parse_boolean_query pp idx q = Inr S"
      and r: "fst (search_boolean pp idx q m) = slice_to (sorted_list_of_set S) m" by blast
    have "set (slice_to (sorted_list_of_set S) m) \<subseteq> set (sorted_list_of_set S)"
      by (rule set_slice_to)
    also have "\<dots> \<subseteq> S" by (rule set_sorted_list_of_set_subset)
    finally have sub: "set (fst (search_boolean pp idx q m)) \<subseteq> S" unfolding r .
    from verify_results_ok [OF S sub,
        of "\<lparr>query = q, total_results = length (fst (search_boolean pp idx q m)),
             logic_correct = True, issues = [], document_analysis = []\<rparr>"]
    obtain v' where "verify_results pp idx (strip (lower q)) (fst (search_boolean pp idx q m))
        \<lparr>query = q, total_results = length (fst (search_boolean pp idx q m)),
             logic_correct = True, issues = [], document_analysis = []\<rparr> = Inr v'"
      and "logic_correct v'"
      by auto
    then show ?thesis
      unfolding verify_boolean_logic_def ql [symmetric] by blast
  qed
qed

lemma handle_and_src:
  "handle_and DocumentPreprocessor_preprocess_text idx q
     = Inl (AttributeError ''DocumentPreprocessor object has no attribute preprocess_text'')"
proof (cases "map strip (split_sep q '' and '')")
  case Nil
  then show ?thesis by (simp add: split_sep_nonempty)
next
  case (Cons t ts)
  then show ?thesis by (simp add: handle_and_def get_documents_for_term_src)
qed

lemma handle_or_src:
  "handle_or DocumentPreprocessor_preprocess_text idx q
     = Inl (AttributeError ''DocumentPreprocessor object has no attribute preprocess_text'')"
proof (cases "map strip (split_sep q '' or '')")
  case Nil
  then show ?thesis by (simp add: split_sep_nonempty)
next
  case (Cons t ts)
  then show ?thesis by (simp add: handle_or_def get_documents_for_term_src)
qed

lemma handle_not_src:
  "handle_not DocumentPreprocessor_preprocess_text idx q = Inr S \<Longrightarrow> S = {}"
  by (auto simp: handle_not_def get_documents_for_term_src split: list.splits)

lemma handle_and_not_src:
  "handle_and_not DocumentPreprocessor_preprocess_text idx q = Inr S \<Longrightarrow> S = {}"
  by (auto simp: handle_and_not_def get_documents_for_term_src handle_and_src Let_def
      split: list.splits if_splits)

lemma parse_boolean_query_src:
  "parse_boolean_query DocumentPreprocessor_preprocess_text idx q = Inr S \<Longrightarrow> S = {}"
  using handle_and_not_src [of idx "strip (lower q)" S] handle_not_src [of idx "strip (lower q)" S]
  by (simp add: parse_boolean_query_def get_documents_for_term_src handle_and_src handle_or_src
      Let_def split: if_splits)

lemma search_boolean_src:
  "fst (search_boolean DocumentPreprocessor_preprocess_text idx q m) = []"
proof -
  from search_boolean_cases [of DocumentPreprocessor_preprocess_text idx q m]
  have "fst (search_boolean DocumentPreprocessor_preprocess_text idx q m) = []
    \<or> (\<exists>S. parse_boolean_query DocumentPreprocessor_preprocess_text idx (strip q) = Inr S
           \<and> fst (search_boolean DocumentPreprocessor_preprocess_text idx q m) = slice_to (sorted_list_of_set S) m)"
    by auto
  then show ?thesis
  proof
    assume "\<exists>S. parse_boolean_query DocumentPreprocessor_preprocess_text idx (strip q) = Inr S
           \<and> fst (search_boolean DocumentPreprocessor_preprocess_text idx q m) = slice_to (sorted_list_of_set S) m"
    then obtain S where S: "parse_boolean_query DocumentPreprocessor_preprocess_text idx (strip q) = Inr S"
      and r: "fst (search_boolean DocumentPreprocessor_preprocess_text idx q m) = slice_to (sorted_list_of_set S) m"
      by blast
    from parse_boolean_query_src [OF S] r show ?thesis by (simp add: slice_to_Nil)
  qed
qed

text \<open>
  Claim C9. For every query, index and maximum, the verifier run on the query and on
  the result list \<open>search_boolean\<close> returned for that query completes and reports
  \<open>logic_correct\<close> true. On the code this holds for every query, because every evaluation
  returns the empty list (\<open>search_boolean_src\<close>). It also holds whatever
  \<open>preprocess_text\<close> does, for every query without leading or trailing whitespace: the
  verifier then reads the same lowercased query as the evaluator and finds every
  returned document in the sets the evaluator combined.
\<close>

theorem verifier_agrees_with_evaluator:
  "(\<exists>v. verify_boolean_logic DocumentPreprocessor_preprocess_text idx q
           (fst (search_boolean DocumentPreprocessor_preprocess_text idx q max_results)) = Inr v
        \<and> logic_correct v)
   \<and> (strip q = q \<longrightarrow>
        (\<exists>v. verify_boolean_logic pp idx q (fst (search_boolean pp idx q max_results)) = Inr v
           \<and> logic_correct v))"
proof (intro conjI impI)
  show "\<exists>v. verify_boolean_logic DocumentPreprocessor_preprocess_text idx q
           (fst (search_boolean DocumentPreprocessor_preprocess_text idx q max_results)) = Inr v
        \<and> logic_correct v"
    unfolding search_boolean_src by (simp add: verify_boolean_logic_def)
next
  assume "strip q = q"
  then show "\<exists>v. verify_boolean_logic pp idx q (fst (search_boolean pp idx q max_results)) = Inr v
           \<and> logic_correct v"
    by (rule verifier_agrees_trimmed)
qed

theorem verifier_agrees_with_evaluator_witness:
  "strip ''dog AND cat'' = ''dog AND cat''
   \<and> fst (search_boolean (manual_tokens {''and'', ''not''} id)
         [''dog'' \<mapsto> {''d1'', ''d3''}, ''cat'' \<mapsto> {''d2'', ''d3''}] ''dog AND cat'' 100) = [''d3'']
   \<and> (\<exists>v. verify_boolean_logic (manual_tokens {''and'', ''not''} id)
         [''dog'' \<mapsto> {''d1'', ''d3''}, ''cat'' \<mapsto> {''d2'', ''d3''}] ''dog AND cat'' [''d3''] = Inr v
        \<and> logic_correct v)"
proof -
  have h: "strip ''dog AND cat'' = ''dog AND cat''" by code_simp
  have r: "fst (search_boolean (manual_tokens {''and'', ''not''} id)
         [''dog'' \<mapsto> {''d1'', ''d3''}, ''cat'' \<mapsto> {''d2'', ''d3''}] ''dog AND cat'' 100) = [''d3'']"
    by code_simp
  from verifier_agrees_with_evaluator [of "[''dog'' \<mapsto> {''d1'', ''d3''}, ''cat'' \<mapsto> {''d2'', ''d3''}]"
      "''dog AND cat''" 100 "manual_tokens {''and'', ''not''} id"] h
  have "\<exists>v. verify_boolean_logic (manual_tokens {''and'', ''not''} id)
         [''dog'' \<mapsto> {''d1'', ''d3''}, ''cat'' \<mapsto> {''d2'', ''d3''}] ''dog AND cat''
         (fst (search_boolean (manual_tokens {''and'', ''not''} id)
         [''dog'' \<mapsto> {''d1'', ''d3''}, ''cat'' \<mapsto> {''d2'', ''d3''}] ''dog AND cat'' 100)) = Inr v
        \<and> logic_correct v"
    by blast
  then show ?thesis unfolding r using h r by blast
qed

text \<open>
  The second part needs the query trimmed: \<open>search_boolean\<close> trims the query before it
  looks for an operator and \<open>verify_boolean_logic\<close> does not. With a preprocessor that
  returns tokens, the query \<open>dog and\<close> followed by a blank is evaluated as the single
  term group \<open>dog and\<close> and verified as the AND of \<open>dog\<close> and the empty term group.
\<close>

lemma verifier_disagrees_untrimmed:
  "fst (search_boolean (manual_tokens {''and'', ''not''} id) [''dog'' \<mapsto> {''d1''}] ''dog and '' 100) = [''d1'']
   \<and> (case verify_boolean_logic (manual_tokens {''and'', ''not''} id) [''dog'' \<mapsto> {''d1''}] ''dog and '' [''d1''] of
        Inl e \<Rightarrow> False
      | Inr v \<Rightarrow> \<not> logic_correct v \<and> issues v = [Missing_required_term ''d1'' []])"
  by code_simp

end
